theory Spec2Isabelle
  imports Main "HOL-Library.Char_ord" "HOL-Library.List_Lexorder" "HOL-Library.Sublist"
begin

section \<open>Pair coverage tracker: \<open>add_read_coverage\<close>\<close>

text \<open>
  An interval is the Python tuple \<open>(read_count, rstart, rend)\<close> of unbounded integers.
  The dictionary \<open>pdict\<close> maps the composite key \<open>transcript1 + ":" + transcript2\<close> to
  the list of intervals of that transcript pair.
\<close>

type_synonym interval = "int \<times> int \<times> int"

type_synonym pdict = "string \<rightharpoonup> interval list"

datatype error = IndexError

text \<open>The subscript \<open>interval_list[i]\<close> for \<open>i \<ge> 0\<close>: Python raises out of range.\<close>

definition list_get :: "'a list \<Rightarrow> nat \<Rightarrow> error + 'a" where
  "list_get xs i = (if i < length xs then Inr (xs ! i) else Inl IndexError)"

text \<open>\<open>list.insert(i, x)\<close> for \<open>i \<ge> 0\<close>: beyond the end it appends.\<close>

definition list_insert :: "nat \<Rightarrow> 'a \<Rightarrow> 'a list \<Rightarrow> 'a list" where
  "list_insert i x xs = take i xs @ [x] @ drop i xs"

text \<open>
  The loop \<open>for i in range(0, ill)\<close> of lines 120 to 140, from index \<open>i\<close> on. The state is
  the list and the flag \<open>insert_done\<close>; \<open>break\<close> returns at once.
\<close>

function scan_intervals ::
  "nat \<Rightarrow> nat \<Rightarrow> int \<Rightarrow> int \<Rightarrow> interval list \<Rightarrow> bool \<Rightarrow> error + (interval list \<times> bool)"
where
  "scan_intervals i ill rs re interval_list insert_done =
     (if i < ill then
        (case list_get interval_list i of
           Inl e \<Rightarrow> Inl e
         | Inr (n_reads, istart, iend) \<Rightarrow>
             if re < istart then
               Inr (list_insert i (1, rs, re) interval_list, True)
             else if rs > iend then
               scan_intervals (i + 1) ill rs re interval_list insert_done
             else
               (let starts = sort [rs, istart];
                    ends = sort [re, iend]
                in scan_intervals (i + 1) ill rs re
                     (interval_list[i := (1 + n_reads, starts ! 0, ends ! 1)]) True))
      else Inr (interval_list, insert_done))"
  by pat_completeness auto
termination
  by (relation "measure (\<lambda>(i, ill, rs, re, interval_list, insert_done). ill - i)") auto

declare scan_intervals.simps [simp del]

text \<open>The final loop of lines 149 to 155: both running sums over the whole list.\<close>

definition totals :: "interval list \<Rightarrow> int \<times> int" where
  "totals interval_list =
     foldl (\<lambda>(n_reads, covered_bp) (nr, istart, iend).
              (n_reads + nr, covered_bp + (iend - istart + 1)))
           (0, 0) interval_list"

text \<open>
  \<open>add_read_coverage(pdict, key, rs, re)\<close>. The list is mutated in place in the source,
  so the dictionary that comes back holds the updated list under \<open>key\<close>.
\<close>

definition add_read_coverage ::
  "pdict \<Rightarrow> string \<Rightarrow> int \<Rightarrow> int \<Rightarrow> error + (pdict \<times> (int \<times> int))"
where
  "add_read_coverage pdict key rs re =
     (case pdict key of
        None \<Rightarrow> Inr (pdict(key \<mapsto> [(1, rs, re)]), (1, re - rs + 1))
      | Some interval_list \<Rightarrow>
          (case scan_intervals 0 (length interval_list) rs re interval_list False of
             Inl e \<Rightarrow> Inl e
           | Inr (il, insert_done) \<Rightarrow>
               (let il' = (if \<not> insert_done then il @ [(1, rs, re)] else il)
                in Inr (pdict(key \<mapsto> il'), totals il'))))"

text \<open>
  The scan as the specification words it, by recursion on the list: stop with an insert
  before the first interval that starts after the new span ends, skip an interval that
  ends before the new span starts, merge otherwise and go on; append when nothing was
  inserted or merged.
\<close>

fun spec_scan :: "int \<Rightarrow> int \<Rightarrow> bool \<Rightarrow> interval list \<Rightarrow> interval list" where
  "spec_scan s e inserted [] = (if inserted then [] else [(1, s, e)])"
| "spec_scan s e inserted ((n, iStart, iEnd) # rest) =
     (if e < iStart then (1, s, e) # (n, iStart, iEnd) # rest
      else if s > iEnd then (n, iStart, iEnd) # spec_scan s e inserted rest
      else (n + 1, min s iStart, max e iEnd) # spec_scan s e True rest)"

section \<open>The streaming loop of \<open>main\<close>\<close>

text \<open>
  A line of the alignment file after \<open>line.split("\t")\<close>, with the columns the loop
  reads: \<open>cols[0]\<close>, \<open>cols[2]\<close>, \<open>int(cols[3])\<close>, \<open>cols[5]\<close> and \<open>cols[6]\<close>. Splitting
  the text and converting the position belong to the decoding of the record; the loop is
  modelled on decoded lines. Strings are lists of 8-bit characters.
\<close>

record sam_line =
  ref_read :: string
  ref_transcript :: string
  pos :: int
  cigar :: string
  other_transcript :: string

record args =
  min_bp_coverage :: int
  min_mate_pair_count :: int

text \<open>
  The variables of \<open>main\<close> that the loop updates. The dictionaries \<open>selected_pairings\<close>
  and \<open>reads_used\<close> only ever store \<open>True\<close>; \<open>printed\<close> is standard output, one key
  per line.
\<close>

record state =
  pairings :: pdict
  single_read_pairings :: int
  same_read_pairings :: int
  selected_pairings :: "string \<rightharpoonup> bool"
  n_selected_pairings :: int
  n_lines_ignored :: int
  n_lines :: int
  reads_used :: "string \<rightharpoonup> bool"
  n_reads_already_used :: int
  printed :: "string list"

definition init_state :: state where
  "init_state =
     \<lparr>pairings = Map.empty, single_read_pairings = 0, same_read_pairings = 0,
      selected_pairings = Map.empty, n_selected_pairings = 0, n_lines_ignored = 0,
      n_lines = 0, reads_used = Map.empty, n_reads_already_used = 0, printed = []\<rparr>"

subsection \<open>Composite key\<close>

text \<open>
  Lines 225 and 226. Python compares strings by code point, lexicographically, a proper
  prefix first: the order of \<open>char list\<close> here.
\<close>

definition pair_key :: "string \<Rightarrow> string \<Rightarrow> string" where
  "pair_key ref_t other_t =
     (let transcripts = sort [ref_t, other_t]
      in transcripts ! 0 @ '':'' @ transcripts ! 1)"

subsection \<open>Read name without the mate suffix\<close>

text \<open>
  \<open>re.match("(.+)" + sep + "[12]$", s)\<close>, giving \<open>group(1)\<close> on a match. The pattern is
  anchored at the start; \<open>.\<close> takes any character but a newline, and at least one; \<open>$\<close>
  holds at the end of the string and also just before a newline that ends it.
\<close>

definition newline :: char where
  "newline = CHR 0x0A"

definition match_suffix :: "string \<Rightarrow> string \<Rightarrow> string option" where
  "match_suffix sep s =
     (let t = (if s \<noteq> [] \<and> last s = newline then butlast s else s);
          k = length t - (length sep + 1);
          g = take k t
      in if length sep + 1 < length t
            \<and> (drop k t = sep @ ''1'' \<or> drop k t = sep @ ''2'')
            \<and> newline \<notin> set g
         then Some g else None)"

text \<open>Lines 237 to 245: first the \<open>__N\<close> form, then the \<open>/N\<close> form, else the name as it is.\<close>

definition ref_read_name :: "string \<Rightarrow> string" where
  "ref_read_name rr =
     (case match_suffix ''__'' rr of
        Some g \<Rightarrow> g
      | None \<Rightarrow>
          (case match_suffix ''/'' rr of
             Some g \<Rightarrow> g
           | None \<Rightarrow> rr))"

subsection \<open>Reference length from the CIGAR string\<close>

definition is_digit :: "char \<Rightarrow> bool" where
  "is_digit c = (c \<in> set ''0123456789'')"

definition is_ref_op :: "char \<Rightarrow> bool" where
  "is_ref_op c = (c \<in> set ''M=XDN'')"

definition int_of_digits :: "string \<Rightarrow> int" where
  "int_of_digits ds = foldl (\<lambda>a c. 10 * a + (of_char c - 48)) 0 ds"

text \<open>
  \<open>re.finditer("(\d+)[M=XDN]", cigar)\<close>: at each position the longest run of digits must
  be followed by one of the five letters; a match is consumed, otherwise the search moves
  one character on.
\<close>

function finditer_ref :: "string \<Rightarrow> int list" where
  "finditer_ref [] = []"
| "finditer_ref (c # cs) =
     (let ds = takeWhile is_digit (c # cs);
          rest = dropWhile is_digit (c # cs)
      in if ds \<noteq> [] \<and> rest \<noteq> [] \<and> is_ref_op (hd rest)
         then int_of_digits ds # finditer_ref (tl rest)
         else finditer_ref cs)"
  by pat_completeness auto
termination
proof (relation "measure length", goal_cases)
  case 1
  show ?case by simp
next
  case (2 c cs ds rest)
  then have "length (tl rest) < length rest" by (cases rest) auto
  also have "length rest \<le> length (c # cs)"
    unfolding \<open>rest = dropWhile is_digit (c # cs)\<close> by (rule length_dropWhile_le)
  finally show ?case by simp
next
  case (3 c cs ds rest)
  show ?case by simp
qed

definition cigar_rlen :: "string \<Rightarrow> int" where
  "cigar_rlen cg = foldl (\<lambda>rlen n. rlen + n) 0 (finditer_ref cg)"

subsection \<open>The loop body\<close>

text \<open>
  Lines 270 to 283: fold the span into the tracker, then either print and retire the pair
  or record the read as used.
\<close>

definition fold_and_select ::
  "args \<Rightarrow> state \<Rightarrow> string \<Rightarrow> string \<Rightarrow> int \<Rightarrow> int \<Rightarrow> error + state"
where
  "fold_and_select a st key rkey rstart rend =
     (case add_read_coverage (pairings st) key rstart rend of
        Inl e \<Rightarrow> Inl e
      | Inr (pd, (n_reads, covered_bp)) \<Rightarrow>
          if n_reads \<ge> min_mate_pair_count a \<and> covered_bp \<ge> min_bp_coverage a then
            Inr (st\<lparr>printed := printed st @ [key],
                    n_selected_pairings := n_selected_pairings st + 1,
                    selected_pairings := (selected_pairings st)(key \<mapsto> True),
                    pairings := pd(key := None)\<rparr>)
          else
            Inr (st\<lparr>pairings := pd,
                    reads_used := (reads_used st)(rkey \<mapsto> True)\<rparr>))"

text \<open>Lines 204 to 283 for one line that is not a header.\<close>

definition process_line :: "args \<Rightarrow> state \<Rightarrow> sam_line \<Rightarrow> error + state" where
  "process_line a st0 ln =
     (let st = st0\<lparr>n_lines := n_lines st0 + 1\<rparr> in
      if other_transcript ln = ''*'' then
        Inr (st\<lparr>single_read_pairings := single_read_pairings st + 1\<rparr>)
      else if other_transcript ln = ''='' then
        Inr (st\<lparr>same_read_pairings := same_read_pairings st + 1\<rparr>)
      else
        (let key = pair_key (ref_transcript ln) (other_transcript ln) in
         if key \<in> dom (selected_pairings st) then
           Inr (st\<lparr>n_lines_ignored := n_lines_ignored st + 1\<rparr>)
         else
           (let name = ref_read_name (ref_read ln);
                rstart = pos ln;
                rlen = cigar_rlen (cigar ln);
                rend = rstart + rlen - 1;
                rkey = key @ '':'' @ name
            in if rkey \<in> dom (reads_used st) then
                 Inr (st\<lparr>n_reads_already_used := n_reads_already_used st + 1\<rparr>)
               else fold_and_select a st key rkey rstart rend)))"

text \<open>
  A header line starts with \<open>@\<close>. The first character of a line with columns is the
  first character of \<open>cols[0]\<close>, or a tab when that column is empty.
\<close>

definition is_header :: "sam_line \<Rightarrow> bool" where
  "is_header ln = (ref_read ln \<noteq> [] \<and> hd (ref_read ln) = CHR ''@'')"

text \<open>The loop \<open>for line in fh\<close>; an exception ends the run.\<close>

fun main_loop :: "args \<Rightarrow> state \<Rightarrow> sam_line list \<Rightarrow> error + state" where
  "main_loop a st [] = Inr st"
| "main_loop a st (ln # fh) =
     (if is_header ln then main_loop a st fh
      else (case process_line a st ln of
              Inl e \<Rightarrow> Inl e
            | Inr st' \<Rightarrow> main_loop a st' fh))"

text \<open>
  Successive calls of \<open>add_read_coverage\<close> on one key, each on the dictionary the call
  before left, with the pair every call returned.
\<close>

fun fold_calls :: "pdict \<Rightarrow> string \<Rightarrow> (int \<times> int) list \<Rightarrow> error + (pdict \<times> (int \<times> int) list)" where
  "fold_calls pd key [] = Inr (pd, [])"
| "fold_calls pd key ((rs, re) # spans) =
     (case add_read_coverage pd key rs re of
        Inl e \<Rightarrow> Inl e
      | Inr (pd', r) \<Rightarrow>
          (case fold_calls pd' key spans of
             Inl e \<Rightarrow> Inl e
           | Inr (pd'', rets) \<Rightarrow> Inr (pd'', r # rets)))"

text \<open>
  The two sums the specification names: the read counts, and the lengths
  \<open>end - start + 1\<close>, over all intervals of a list.
\<close>

definition sum_read_count :: "interval list \<Rightarrow> int" where
  "sum_read_count xs = sum_list (map (\<lambda>(n, s, e). n) xs)"

definition sum_covered :: "interval list \<Rightarrow> int" where
  "sum_covered xs = sum_list (map (\<lambda>(n, s, e). e - s + 1) xs)"

text \<open>The list a call leaves under its key.\<close>

definition folded :: "pdict \<Rightarrow> string \<Rightarrow> int \<Rightarrow> int \<Rightarrow> interval list" where
  "folded pdict key rs re =
     (case pdict key of
        None \<Rightarrow> [(1, rs, re)]
      | Some xs \<Rightarrow> spec_scan rs re False xs)"




definition line_rend :: "sam_line \<Rightarrow> int" where
  "line_rend ln = pos ln + cigar_rlen (cigar ln) - 1"

text \<open>What a run prints, from the empty dictionaries.\<close>

definition main_printed :: "args \<Rightarrow> sam_line list \<Rightarrow> error + string list" where
  "main_printed a fh =
     (case main_loop a init_state fh of
        Inl e \<Rightarrow> Inl e
      | Inr st \<Rightarrow> Inr (printed st))"


text \<open>The four mate suffixes of a read identifier.\<close>

definition mate_suffixes :: "string set" where
  "mate_suffixes = {''/1'', ''/2'', ''__1'', ''__2''}"





section \<open>Properties of the tracker\<close>

lemma sort_pair_fst: "sort [a, b :: int] ! 0 = min a b"
  by (simp add: min_def)

lemma sort_pair_snd:
  "sort [a, b :: int] ! 1 = max a b" "sort [a, b :: int] ! Suc 0 = max a b"
  by (simp_all add: max_def)

text \<open>
  The indexed loop never reads out of range, and what it leaves, with the append of
  line 144, is the prefix already passed followed by the scan of the rest.
\<close>

lemma scan_intervals_spec:
  "ill = length xs \<Longrightarrow> i \<le> length xs \<Longrightarrow>
   \<exists>ys d'. scan_intervals i ill rs re xs d = Inr (ys, d') \<and>
     (if d' then ys else ys @ [(1, rs, re)]) = take i xs @ spec_scan rs re d (drop i xs)"
proof (induction i ill rs re xs d rule: scan_intervals.induct)
  case (1 i ill rs re xs d)
  show ?case
  proof (cases "i < ill")
    case False
    with 1(3,4) have eq: "drop i xs = []" "take i xs = xs" by simp_all
    have "scan_intervals i ill rs re xs d = Inr (xs, d)"
      using False by (subst scan_intervals.simps) simp
    then show ?thesis
      using eq by auto
  next
    case True
    then have lt: "i < length xs" using 1(3) by simp
    obtain n istart iend where nth: "xs ! i = (n, istart, iend)"
      by (cases "xs ! i") auto
    have get: "list_get xs i = Inr (n, istart, iend)"
      using lt nth by (simp add: list_get_def)
    have dr: "drop i xs = (n, istart, iend) # drop (Suc i) xs"
      using lt nth by (metis Cons_nth_drop_Suc)
    consider (before) "re < istart" | (after) "\<not> re < istart" "rs > iend"
      | (merge) "\<not> re < istart" "\<not> rs > iend" by blast
    then show ?thesis
    proof cases
      case before
      have "scan_intervals i ill rs re xs d = Inr (list_insert i (1, rs, re) xs, True)"
        using True get before by (subst scan_intervals.simps) simp
      moreover have "list_insert i (1, rs, re) xs = take i xs @ spec_scan rs re d (drop i xs)"
        using before by (simp add: dr list_insert_def)
      ultimately show ?thesis by auto
    next
      case after
      have step: "scan_intervals i ill rs re xs d = scan_intervals (i + 1) ill rs re xs d"
        using True get after by (subst scan_intervals.simps) simp
      have "\<exists>ys d'. scan_intervals (i + 1) ill rs re xs d = Inr (ys, d') \<and>
         (if d' then ys else ys @ [(1, rs, re)])
           = take (i + 1) xs @ spec_scan rs re d (drop (i + 1) xs)"
        using 1(1)[OF True get refl refl after(1) after(2) 1(3)] lt by simp
      moreover have "take (i + 1) xs @ spec_scan rs re d (drop (i + 1) xs)
           = take i xs @ spec_scan rs re d (drop i xs)"
        using after lt nth by (simp add: dr take_Suc_conv_app_nth)
      ultimately show ?thesis using step by auto
    next
      case merge
      let ?v = "(1 + n, sort [rs, istart] ! 0, sort [re, iend] ! 1)"
      let ?xs' = "xs[i := ?v]"
      have step: "scan_intervals i ill rs re xs d = scan_intervals (i + 1) ill rs re ?xs' True"
        using True get merge
        by (subst scan_intervals.simps) (simp add: Let_def del: sort_key_simps)
      have "\<exists>ys d'. scan_intervals (i + 1) ill rs re ?xs' True = Inr (ys, d') \<and>
         (if d' then ys else ys @ [(1, rs, re)])
           = take (i + 1) ?xs' @ spec_scan rs re True (drop (i + 1) ?xs')"
        using 1(2)[OF True get refl refl merge(1) merge(2) refl refl] 1(3) lt by simp
      moreover have "take (i + 1) ?xs' @ spec_scan rs re True (drop (i + 1) ?xs')
           = take i xs @ spec_scan rs re d (drop i xs)"
        using merge lt
        by (simp add: dr take_Suc_conv_app_nth sort_pair_fst sort_pair_snd
              del: sort_key_simps)
      ultimately show ?thesis using step by auto
    qed
  qed
qed

lemma totals_foldl:
  "foldl (\<lambda>(n_reads, covered_bp) (nr, istart, iend).
            (n_reads + nr, covered_bp + (iend - istart + 1))) (a, b) xs
   = (a + sum_read_count xs, b + sum_covered xs)"
  by (induction xs arbitrary: a b)
     (auto simp: sum_read_count_def sum_covered_def)

lemma totals_sums: "totals xs = (sum_read_count xs, sum_covered xs)"
  by (simp add: totals_def totals_foldl)

lemma add_read_coverage_folded:
  "add_read_coverage pdict key rs re =
     Inr (pdict(key \<mapsto> folded pdict key rs re),
          (sum_read_count (folded pdict key rs re), sum_covered (folded pdict key rs re)))"
proof (cases "pdict key")
  case None
  then show ?thesis
    by (simp add: add_read_coverage_def folded_def sum_read_count_def sum_covered_def)
next
  case (Some xs)
  obtain ys d' where sc: "scan_intervals 0 (length xs) rs re xs False = Inr (ys, d')"
    and eq: "(if d' then ys else ys @ [(1, rs, re)]) = spec_scan rs re False xs"
    using scan_intervals_spec[of "length xs" xs 0 rs re False] by auto
  have "(if \<not> d' then ys @ [(1, rs, re)] else ys) = spec_scan rs re False xs"
    using eq by (cases d') auto
  then show ?thesis
    using Some sc by (simp add: add_read_coverage_def folded_def totals_sums Let_def)
qed

text \<open>
  C1. When the list of a pair key exists, a call leaves under that key the list the
  specification's scan gives: in ascending order, an interval that starts after the new
  span ends gets \<open>(1, start, end)\<close> inserted before it and the scan stops; an interval
  that ends before the new span starts is kept and the scan goes on; any other interval
  is replaced by \<open>(n + 1, min, max)\<close> and the scan goes on; and \<open>(1, start, end)\<close> is
  appended when no interval was inserted before or merged.
\<close>

theorem add_read_coverage_scan_cases:
  "pdict key = Some xs \<Longrightarrow>
   \<exists>r. add_read_coverage pdict key rs re =
          Inr (pdict(key \<mapsto> spec_scan rs re False xs), r)"
  by (simp add: add_read_coverage_folded folded_def)

theorem add_read_coverage_scan_cases_witness:
  "[''k'' \<mapsto> [(1, 10, 20), (1, 30, 40), (1, 50, 60)]] ''k''
     = Some [(1, 10, 20), (1, 30, 40), (1, 50, 60)]
   \<and> (\<exists>r. add_read_coverage [''k'' \<mapsto> [(1, 10, 20), (1, 30, 40), (1, 50, 60)]] ''k'' 35 45
            = Inr ([''k'' \<mapsto> [(1, 10, 20), (2, 30, 45), (1, 35, 45), (1, 50, 60)]], r))"
  using add_read_coverage_scan_cases
          [of "[''k'' \<mapsto> [(1, 10, 20), (1, 30, 40), (1, 50, 60)]]" "''k''"
              "[(1, 10, 20), (1, 30, 40), (1, 50, 60)]" 35 45]
  by simp

text \<open>
  C2. Every call returns, and the pair it returns is the sum of the read counts and the
  sum of \<open>end - start + 1\<close> over the list the call leaves under the key. On a key with no
  list the span \<open>(10, 50)\<close> returns \<open>(1, 41)\<close>; \<open>(10, 50)\<close> then \<open>(40, 80)\<close> return \<open>(1, 41)\<close>
  and \<open>(2, 71)\<close>.
\<close>

theorem add_read_coverage_returns_sums:
  "(\<exists>pd' xs. add_read_coverage pdict key rs re
                = Inr (pd', (sum_read_count xs, sum_covered xs)) \<and> pd' key = Some xs)
   \<and> (\<exists>pd'. add_read_coverage (pdict(key := None)) key 10 50 = Inr (pd', (1, 41)))
   \<and> (\<exists>pd'. fold_calls (pdict(key := None)) key [(10, 50), (40, 80)]
               = Inr (pd', [(1, 41), (2, 71)]))"
  by (simp add: add_read_coverage_folded folded_def sum_read_count_def sum_covered_def)

lemma sum_covered_Nil: "sum_covered [] = 0"
  by (simp add: sum_covered_def)

lemma sum_covered_Cons: "sum_covered ((n, s, e) # xs) = (e - s + 1) + sum_covered xs"
  by (simp add: sum_covered_def)

text \<open>
  C9. Three alignments on one key, \<open>(10, 20)\<close>, \<open>(30, 40)\<close>, \<open>(15, 25)\<close>: the third call
  merges the span into \<open>(1, 10, 20)\<close> and then inserts it again before \<open>(1, 30, 40)\<close>, and
  returns a read count of 4.
\<close>

theorem third_call_counts_span_twice:
  "\<exists>pd'. fold_calls (pdict(key := None)) key [(10, 20), (30, 40), (15, 25)]
            = Inr (pd', [(1, 11), (2, 22), (4, 38)])
          \<and> pd' key = Some [(2, 10, 25), (1, 15, 25), (1, 30, 40)]
          \<and> int (length [(10, 20), (30, 40), (15 :: int, 25 :: int)]) < 4"
  by (simp add: add_read_coverage_folded folded_def sum_read_count_def sum_covered_def)

subsection \<open>Covered base pairs never shrink\<close>

lemma spec_scan_covered_mono:
  "rs - 1 \<le> re \<Longrightarrow> sum_covered xs \<le> sum_covered (spec_scan rs re d xs)"
proof (induction xs arbitrary: d)
  case Nil
  then show ?case by (simp add: sum_covered_Cons sum_covered_Nil)
next
  case (Cons x xs)
  obtain n s e where x: "x = (n, s, e)" by (cases x) auto
  have a: "sum_covered xs \<le> sum_covered (spec_scan rs re d xs)"
    and b: "sum_covered xs \<le> sum_covered (spec_scan rs re True xs)"
    using Cons by simp_all
  show ?case
    using a b Cons.prems by (auto simp: x sum_covered_Cons min_def max_def)
qed

lemma folded_covered_mono:
  "rs - 1 \<le> re \<Longrightarrow> pd key = Some xs \<Longrightarrow> sum_covered xs \<le> sum_covered (folded pd key rs re)"
  by (simp add: folded_def spec_scan_covered_mono)

text \<open>
  C10. A sequence of calls on one key, every span with \<open>end \<ge> start - 1\<close>: all calls
  return, and the covered base pairs they return never decrease from one call to the
  next; when the key had a list before the first call, none is below the sum of that list.
\<close>

theorem fold_calls_covered_nondecreasing:
  "\<forall>(rs, re) \<in> set spans. rs - 1 \<le> re \<Longrightarrow>
   \<exists>pd' rets. fold_calls pd key spans = Inr (pd', rets)
     \<and> length rets = length spans
     \<and> sorted (map snd rets)
     \<and> (\<forall>xs. pd key = Some xs \<longrightarrow> (\<forall>r \<in> set rets. sum_covered xs \<le> snd r))"
proof (induction spans arbitrary: pd)
  case Nil
  then show ?case by simp
next
  case (Cons sp spans)
  obtain rs re where sp: "sp = (rs, re)" by (cases sp) auto
  let ?ys = "folded pd key rs re"
  let ?pd1 = "pd(key \<mapsto> ?ys)"
  have ok: "rs - 1 \<le> re" using Cons.prems sp by simp
  have rest: "\<forall>(rs, re) \<in> set spans. rs - 1 \<le> re" using Cons.prems by simp
  obtain pd' rets where fc: "fold_calls ?pd1 key spans = Inr (pd', rets)"
    and len: "length rets = length spans" and so: "sorted (map snd rets)"
    and lb: "\<forall>r \<in> set rets. sum_covered ?ys \<le> snd r"
  proof -
    have "?pd1 key = Some ?ys" by simp
    then show ?thesis using Cons.IH[OF rest, of ?pd1] that by blast
  qed
  have call: "fold_calls pd key (sp # spans)
      = Inr (pd', (sum_read_count ?ys, sum_covered ?ys) # rets)"
    using fc by (simp add: sp add_read_coverage_folded)
  have "\<forall>xs. pd key = Some xs \<longrightarrow> sum_covered xs \<le> sum_covered ?ys"
    using ok by (simp add: folded_covered_mono)
  then have "\<forall>xs. pd key = Some xs \<longrightarrow>
      (\<forall>r \<in> set ((sum_read_count ?ys, sum_covered ?ys) # rets). sum_covered xs \<le> snd r)"
    using lb by fastforce
  then show ?case
    using call len so lb by simp
qed

theorem fold_calls_covered_nondecreasing_witness:
  "((10 :: int) - 1 \<le> 20 \<and> (30 :: int) - 1 \<le> 40 \<and> (15 :: int) - 1 \<le> 25 \<and> (5 :: int) - 1 \<le> 4)
   \<and> (\<exists>pd'. fold_calls [''k'' \<mapsto> [(1, 12, 13)]] ''k'' [(10, 20), (30, 40), (15, 25), (5, 4)]
              = Inr (pd', [(2, 11), (3, 22), (5, 38), (6, 38)]))
   \<and> sorted (map snd [(2, 11), (3, 22), (5, 38), (6 :: int, 38 :: int)])
   \<and> sum_covered [(1, 12, 13)] \<le> 11"
  using fold_calls_covered_nondecreasing
          [of "[(10, 20), (30, 40), (15, 25), (5, 4)]" "[''k'' \<mapsto> [(1, 12, 13)]]" "''k''"]
  by (simp add: add_read_coverage_folded folded_def sum_read_count_def sum_covered_def)

subsection \<open>Degenerate spans\<close>

lemma spec_scan_degenerate:
  "re < rs \<Longrightarrow>
   sum_covered (spec_scan rs re d xs)
     = sum_covered xs + (if length (spec_scan rs re d xs) = length xs then 0 else re - rs + 1)"
proof (induction xs arbitrary: d)
  case Nil
  then show ?case by (simp add: sum_covered_Cons sum_covered_Nil)
next
  case (Cons x xs)
  obtain n s e where x: "x = (n, s, e)" by (cases x) auto
  have a: "sum_covered (spec_scan rs re d xs)
     = sum_covered xs + (if length (spec_scan rs re d xs) = length xs then 0 else re - rs + 1)"
    and b: "sum_covered (spec_scan rs re True xs)
     = sum_covered xs + (if length (spec_scan rs re True xs) = length xs then 0 else re - rs + 1)"
    using Cons by simp_all
  consider (before) "re < s" | (after) "\<not> re < s" "rs > e"
    | (merge) "\<not> re < s" "\<not> rs > e" by blast
  then show ?case
  proof cases
    case before
    then show ?thesis by (simp add: x sum_covered_Cons)
  next
    case after
    then show ?thesis using a by (simp add: x sum_covered_Cons)
  next
    case merge
    then have "min rs s = s" "max re e = e" using Cons.prems by simp_all
    then show ?thesis using merge b by (simp add: x sum_covered_Cons)
  qed
qed

lemma is_digit_ge: "is_digit c \<Longrightarrow> (48 :: int) \<le> of_char c"
  by (auto simp: is_digit_def)

lemma foldl_digits_nonneg:
  "0 \<le> a \<Longrightarrow> \<forall>c \<in> set ds. is_digit c \<Longrightarrow>
   (0 :: int) \<le> foldl (\<lambda>a c. 10 * a + (of_char c - 48)) a ds"
proof (induction ds arbitrary: a)
  case Nil
  then show ?case by simp
next
  case (Cons d ds)
  have "0 \<le> 10 * a + (of_char d - 48)"
    using Cons.prems is_digit_ge[of d] by simp
  then show ?case using Cons by simp
qed

lemma finditer_ref_nonneg: "\<forall>n \<in> set (finditer_ref s). 0 \<le> n"
proof (induction s rule: finditer_ref.induct)
  case 1
  then show ?case by simp
next
  case (2 c cs)
  have "0 \<le> int_of_digits (takeWhile is_digit (c # cs))"
    unfolding int_of_digits_def
    by (rule foldl_digits_nonneg) (auto dest: set_takeWhileD)
  then show ?case
    using 2 by (auto simp: Let_def simp del: takeWhile.simps dropWhile.simps)
qed

lemma foldl_add_nonneg:
  "0 \<le> a \<Longrightarrow> \<forall>n \<in> set ns. 0 \<le> n \<Longrightarrow> (0 :: int) \<le> foldl (\<lambda>rlen n. rlen + n) a ns"
  by (induction ns arbitrary: a) auto

lemma cigar_rlen_nonneg: "0 \<le> cigar_rlen cg"
  unfolding cigar_rlen_def by (rule foldl_add_nonneg) (simp_all add: finditer_ref_nonneg)

lemma spec_scan_zero_length:
  assumes "rs - 1 \<le> re" "re < rs"
  shows "sum_covered (spec_scan rs re d xs) = sum_covered xs + (re - rs + 1)"
proof -
  have "re - rs + 1 = 0" using assms by simp
  then show ?thesis using spec_scan_degenerate[OF assms(2), of d xs] by simp
qed

lemma spec_scan_degenerate_le:
  assumes "re < rs"
  shows "sum_covered (spec_scan rs re d xs) \<le> sum_covered xs"
  using spec_scan_degenerate[OF assms, of d xs] assms by (simp split: if_splits)

text \<open>
  C8. No call fails, whatever the integers, and a first span of a pair returns its
  length \<open>end - start + 1\<close> as it is. A span with \<open>end < start\<close> goes through the same
  scan as any other and never raises the returned covered base pairs. The loop computes
  \<open>rend = rstart + rlen - 1\<close> with a length \<open>rlen\<close> from the CIGAR string that is never
  negative, so the spans with \<open>end < start\<close> that reach the tracker have
  \<open>end = start - 1\<close>; for each of them the returned covered base pairs are those of the
  list before plus the length \<open>end - start + 1\<close>, which is not positive.
\<close>

theorem add_read_coverage_never_fails:
  "(\<exists>pd' n bp. add_read_coverage pdict key rs re = Inr (pd', (n, bp)))
   \<and> add_read_coverage (pdict(key := None)) key rs re
       = Inr (pdict(key \<mapsto> [(1, rs, re)]), (1, re - rs + 1))
   \<and> (re < rs \<longrightarrow>
        (\<exists>n bp. add_read_coverage (pdict(key \<mapsto> xs)) key rs re
                  = Inr (pdict(key \<mapsto> spec_scan rs re False xs), (n, bp))
                \<and> bp \<le> sum_covered xs)
        \<and> re - rs + 1 \<le> 0)
   \<and> (rs - 1 \<le> re \<and> re < rs \<longrightarrow>
        (\<exists>n. add_read_coverage (pdict(key \<mapsto> xs)) key rs re
                = Inr (pdict(key \<mapsto> spec_scan rs re False xs),
                       (n, sum_covered xs + (re - rs + 1)))))
   \<and> 0 \<le> cigar_rlen (cigar ln)
   \<and> line_rend ln = pos ln + cigar_rlen (cigar ln) - 1
   \<and> pos ln - 1 \<le> line_rend ln"
proof (intro conjI impI)
  show "\<exists>pd' n bp. add_read_coverage pdict key rs re = Inr (pd', (n, bp))"
    by (simp add: add_read_coverage_folded)
  show "add_read_coverage (pdict(key := None)) key rs re
       = Inr (pdict(key \<mapsto> [(1, rs, re)]), (1, re - rs + 1))"
    by (simp add: add_read_coverage_folded folded_def sum_read_count_def sum_covered_def)
  show "0 \<le> cigar_rlen (cigar ln)" by (rule cigar_rlen_nonneg)
  show "line_rend ln = pos ln + cigar_rlen (cigar ln) - 1" by (simp add: line_rend_def)
  show "pos ln - 1 \<le> line_rend ln"
    using cigar_rlen_nonneg[of "cigar ln"] by (simp add: line_rend_def)
next
  assume deg: "re < rs"
  then show "re - rs + 1 \<le> 0" by simp
  show "\<exists>n bp. add_read_coverage (pdict(key \<mapsto> xs)) key rs re
                  = Inr (pdict(key \<mapsto> spec_scan rs re False xs), (n, bp))
                \<and> bp \<le> sum_covered xs"
    using spec_scan_degenerate_le[OF deg, of False xs]
    by (simp add: add_read_coverage_folded folded_def)
next
  assume "rs - 1 \<le> re \<and> re < rs"
  then have "sum_covered (spec_scan rs re False xs) = sum_covered xs + (re - rs + 1)"
    using spec_scan_zero_length[of rs re False xs] by simp
  then show "\<exists>n. add_read_coverage (pdict(key \<mapsto> xs)) key rs re
                = Inr (pdict(key \<mapsto> spec_scan rs re False xs),
                       (n, sum_covered xs + (re - rs + 1)))"
    by (simp add: add_read_coverage_folded folded_def)
qed

theorem add_read_coverage_never_fails_witness:
  "(55 :: int) - 1 \<le> 54 \<and> (54 :: int) < 55
   \<and> (\<exists>n. add_read_coverage [''k'' \<mapsto> [(1, 10, 50), (1, 60, 70)]] ''k'' 55 54
          = Inr ([''k'' \<mapsto> [(1, 10, 50), (1, 55, 54), (1, 60, 70)]], (n, 52)))
   \<and> sum_covered [(1, 10, 50), (1, 60, 70)] + (54 - 55 + 1) = 52
   \<and> (30 :: int) - 1 \<le> 29 \<and> (29 :: int) < 30
   \<and> (\<exists>n. add_read_coverage [''k'' \<mapsto> [(1, 10, 50)]] ''k'' 30 29
          = Inr ([''k'' \<mapsto> [(2, 10, 50)]], (n, 41)))
   \<and> sum_covered [(1, 10, 50)] + (29 - 30 + 1) = 41
   \<and> line_rend \<lparr>ref_read = ''r1/1'', ref_transcript = ''A'', pos = 55, cigar = ''*'',
        other_transcript = ''B''\<rparr> = 54"
proof -
  have "cigar_rlen ''*'' = 0" by code_simp
  then show ?thesis
    using add_read_coverage_never_fails
          [of "Map.empty" "''k''" 55 54 "[(1, 10, 50), (1, 60, 70)]"
              "\<lparr>ref_read = ''r1/1'', ref_transcript = ''A'', pos = 55, cigar = ''*'',
                other_transcript = ''B''\<rparr>"]
      add_read_coverage_never_fails
          [of "Map.empty" "''k''" 30 29 "[(1, 10, 50)]"
              "\<lparr>ref_read = ''r1/1'', ref_transcript = ''A'', pos = 55, cigar = ''*'',
                other_transcript = ''B''\<rparr>"]
    by (simp add: sum_covered_def)
qed

section \<open>Properties of the key and of the read name\<close>

lemma pair_key_if: "pair_key a b = (if a \<le> b then a @ '':'' @ b else b @ '':'' @ a)"
  by (simp add: pair_key_def)

lemma pair_key_sym: "pair_key a b = pair_key b a"
  by (auto simp: pair_key_if)

lemma pair_key_min_max: "pair_key a b = min a b @ '':'' @ max a b"
  by (auto simp: pair_key_if min_def max_def)

text \<open>
  C5. The key of \<open>(A, B)\<close> is the key of \<open>(B, A)\<close>: the smaller name, a colon, the larger
  name. Two lines that differ only in the order of two transcript names (neither is the
  mark \<open>*\<close> or \<open>=\<close> of a missing or same-reference mate) take every state to the same
  state, so they accumulate under the same entry of \<open>pairings\<close>.
\<close>

theorem pair_key_symmetric:
  "pair_key A B = pair_key B A
   \<and> pair_key A B = min A B @ '':'' @ max A B
   \<and> (A \<notin> {''*'', ''=''} \<and> B \<notin> {''*'', ''=''} \<longrightarrow>
        process_line a st
          \<lparr>ref_read = r, ref_transcript = A, pos = p, cigar = c, other_transcript = B\<rparr>
        = process_line a st
          \<lparr>ref_read = r, ref_transcript = B, pos = p, cigar = c, other_transcript = A\<rparr>)"
  using pair_key_sym[of A B] pair_key_min_max[of A B]
  by (simp add: process_line_def Let_def)

theorem pair_key_symmetric_witness:
  "''c2'' \<notin> {''*'', ''=''} \<and> ''c10'' \<notin> {''*'', ''=''}
   \<and> pair_key ''c2'' ''c10'' = ''c10:c2'' \<and> pair_key ''c10'' ''c2'' = ''c10:c2''
   \<and> process_line \<lparr>min_bp_coverage = 250, min_mate_pair_count = 2\<rparr> init_state
        \<lparr>ref_read = ''r/1'', ref_transcript = ''c2'', pos = 7, cigar = ''30M'',
         other_transcript = ''c10''\<rparr>
     = process_line \<lparr>min_bp_coverage = 250, min_mate_pair_count = 2\<rparr> init_state
        \<lparr>ref_read = ''r/1'', ref_transcript = ''c10'', pos = 7, cigar = ''30M'',
         other_transcript = ''c2''\<rparr>"
  using pair_key_symmetric
          [of "''c2''" "''c10''" "\<lparr>min_bp_coverage = 250, min_mate_pair_count = 2\<rparr>"
              init_state "''r/1''" 7 "''30M''"]
  by (simp add: pair_key_if)

subsection \<open>The read name\<close>

lemma match_suffix_strip:
  assumes "p \<noteq> []" "newline \<notin> set p" "d = CHR ''1'' \<or> d = CHR ''2''"
    "newline \<notin> set sep"
  shows "match_suffix sep (p @ sep @ [d]) = Some p"
proof -
  have nl: "d \<noteq> newline" using assms(3) by (auto simp: newline_def)
  have "length (p @ sep @ [d]) - (length sep + 1) = length p" by simp
  moreover have "length sep + 1 < length (p @ sep @ [d])" using assms(1) by (cases p) auto
  ultimately show ?thesis
    using assms nl by (auto simp: match_suffix_def Let_def)
qed

lemma match_suffix_Some:
  assumes "match_suffix sep s = Some g" "newline \<notin> set s"
  shows "g \<noteq> [] \<and> (s = g @ sep @ ''1'' \<or> s = g @ sep @ ''2'')"
proof -
  have "\<not> (s \<noteq> [] \<and> last s = newline)"
    using assms(2) last_in_set[of s] by metis
  then have t: "(if s \<noteq> [] \<and> last s = newline then butlast s else s) = s"
    by (rule if_not_P)
  let ?k = "length s - (length sep + 1)"
  have c: "length sep + 1 < length s" "drop ?k s = sep @ ''1'' \<or> drop ?k s = sep @ ''2''"
      "g = take ?k s"
    using assms(1) unfolding match_suffix_def t Let_def by (auto split: if_splits)
  have "s = g @ drop ?k s" using c(3) by simp
  moreover have "g \<noteq> []" using c(1,3) by auto
  ultimately show ?thesis using c(2) by auto
qed

lemma match_underscore_slash:
  assumes "newline \<notin> set p" "d = CHR ''1'' \<or> d = CHR ''2''"
  shows "match_suffix ''__'' (p @ ''/'' @ [d]) = None"
proof (cases "match_suffix ''__'' (p @ ''/'' @ [d])")
  case None
  then show ?thesis .
next
  case (Some g)
  have "newline \<notin> set (p @ ''/'' @ [d])"
    using assms by (auto simp: newline_def)
  from match_suffix_Some[OF Some this]
  have "p @ ''/'' @ [d] = g @ ''__1'' \<or> p @ ''/'' @ [d] = g @ ''__2''" by simp
  then have "rev (p @ ''/'' @ [d]) = rev (g @ ''__1'')
      \<or> rev (p @ ''/'' @ [d]) = rev (g @ ''__2'')"
    by metis
  then show ?thesis by simp
qed

lemma ref_read_name_strip:
  assumes "p \<noteq> []" "newline \<notin> set p" "sfx \<in> mate_suffixes"
  shows "ref_read_name (p @ sfx) = p"
proof -
  consider (sl) d where "sfx = ''/'' @ [d]" "d = CHR ''1'' \<or> d = CHR ''2''"
    | (us) d where "sfx = ''__'' @ [d]" "d = CHR ''1'' \<or> d = CHR ''2''"
    using assms(3) by (auto simp: mate_suffixes_def)
  then show ?thesis
  proof cases
    case sl
    have "newline \<notin> set ''/''" by (simp add: newline_def)
    from match_suffix_strip[OF assms(1,2) sl(2) this]
    show ?thesis
      using match_underscore_slash[OF assms(2) sl(2)]
      by (simp add: ref_read_name_def sl(1))
  next
    case us
    have "newline \<notin> set ''__''" by (simp add: newline_def)
    from match_suffix_strip[OF assms(1,2) us(2) this]
    show ?thesis
      by (simp add: ref_read_name_def us(1))
  qed
qed

lemma ref_read_name_unchanged:
  assumes "newline \<notin> set s" "\<forall>sfx \<in> mate_suffixes. \<not> strict_suffix sfx s"
  shows "ref_read_name s = s"
proof -
  have "match_suffix sep s = None" if sep: "sep = ''__'' \<or> sep = ''/''" for sep
  proof (cases "match_suffix sep s")
    case None
    then show ?thesis .
  next
    case (Some g)
    from match_suffix_Some[OF Some assms(1)]
    have g: "g \<noteq> []" and "s = g @ sep @ ''1'' \<or> s = g @ sep @ ''2''" by simp_all
    then obtain sfx where "s = g @ sfx" "sfx \<in> mate_suffixes"
      using sep by (auto simp: mate_suffixes_def)
    then have "strict_suffix sfx s" using g by (simp add: strict_suffix_def suffix_def)
    then show ?thesis using assms(2) \<open>sfx \<in> _\<close> by blast
  qed
  then show ?thesis by (simp add: ref_read_name_def)
qed

text \<open>
  C7, as amended. A read identifier is a column of a line, without a newline. When one
  of \<open>/1\<close>, \<open>/2\<close>, \<open>__1\<close>, \<open>__2\<close> ends it after a prefix that is not empty, that one suffix
  is taken off and the prefix comes back, so two identifiers that differ only in the
  suffix get the same base name. Any other identifier comes back unchanged, one that
  is a suffix and nothing else included.
\<close>

theorem ref_read_name_strips_suffix:
  "(p \<noteq> [] \<and> newline \<notin> set p \<and> sfx \<in> mate_suffixes \<and> sfx' \<in> mate_suffixes \<longrightarrow>
      ref_read_name (p @ sfx) = p \<and> ref_read_name (p @ sfx) = ref_read_name (p @ sfx'))
   \<and> (newline \<notin> set s \<and> (\<forall>t \<in> mate_suffixes. \<not> strict_suffix t s) \<longrightarrow>
      ref_read_name s = s)
   \<and> (\<forall>t \<in> mate_suffixes. ref_read_name t = t)"
proof (intro conjI impI ballI)
  assume a: "p \<noteq> [] \<and> newline \<notin> set p \<and> sfx \<in> mate_suffixes \<and> sfx' \<in> mate_suffixes"
  then show "ref_read_name (p @ sfx) = p"
    by (simp add: ref_read_name_strip)
  from a show "ref_read_name (p @ sfx) = ref_read_name (p @ sfx')"
    by (simp add: ref_read_name_strip)
next
  assume "newline \<notin> set s \<and> (\<forall>t \<in> mate_suffixes. \<not> strict_suffix t s)"
  then show "ref_read_name s = s"
    by (simp add: ref_read_name_unchanged)
next
  fix t assume "t \<in> mate_suffixes"
  then show "ref_read_name t = t"
    by (auto simp: mate_suffixes_def ref_read_name_def match_suffix_def newline_def)
qed

theorem ref_read_name_strips_suffix_witness:
  "(''HWI:46809'' \<noteq> [] \<and> newline \<notin> set ''HWI:46809''
      \<and> ''__1'' \<in> mate_suffixes \<and> ''/2'' \<in> mate_suffixes)
   \<and> ref_read_name ''HWI:46809__1'' = ''HWI:46809''
   \<and> ref_read_name ''HWI:46809/2'' = ''HWI:46809''
   \<and> newline \<notin> set ''HWI:46809/3''
   \<and> \<not> strict_suffix ''/1'' ''HWI:46809/3'' \<and> \<not> strict_suffix ''/2'' ''HWI:46809/3''
   \<and> \<not> strict_suffix ''__1'' ''HWI:46809/3'' \<and> \<not> strict_suffix ''__2'' ''HWI:46809/3''
   \<and> ref_read_name ''HWI:46809/3'' = ''HWI:46809/3''
   \<and> ref_read_name ''__2'' = ''__2''"
  using ref_read_name_strips_suffix
          [of "''HWI:46809''" "''__1''" "''/2''" "''HWI:46809/3''"]
  by (auto simp: mate_suffixes_def newline_def strict_suffix_def suffix_to_prefix)

text \<open>
  The claim as written fails on an identifier that is a suffix and nothing else: \<open>/1\<close>
  and \<open>/2\<close> differ only in the suffix, and each comes back whole, not as the empty prefix.
\<close>

theorem ref_read_name_bare_suffix_counterexample:
  "ref_read_name ''/1'' = ''/1'' \<and> ref_read_name ''/2'' = ''/2''
   \<and> ref_read_name ''/1'' \<noteq> ref_read_name ''/2'' \<and> ref_read_name ''/1'' \<noteq> []"
  by (simp add: ref_read_name_def match_suffix_def newline_def)

section \<open>Properties of the loop\<close>

lemma fold_and_select_eq:
  "fold_and_select a st key rkey rs re =
     Inr (if min_mate_pair_count a \<le> sum_read_count (folded (pairings st) key rs re)
             \<and> min_bp_coverage a \<le> sum_covered (folded (pairings st) key rs re)
          then st\<lparr>printed := printed st @ [key],
                  n_selected_pairings := n_selected_pairings st + 1,
                  selected_pairings := (selected_pairings st)(key \<mapsto> True),
                  pairings := (pairings st)(key := None)\<rparr>
          else st\<lparr>pairings := (pairings st)(key \<mapsto> folded (pairings st) key rs re),
                  reads_used := (reads_used st)(rkey \<mapsto> True)\<rparr>)"
  by (simp add: fold_and_select_def add_read_coverage_folded)















text \<open>
  C3. When the tracker returns \<open>(n, bp)\<close> for a key that is not yet selected, the key
  is selected, and printed, exactly when \<open>n \<ge> min_mate_pair_count\<close> and
  \<open>bp \<ge> min_bp_coverage\<close>. With thresholds 2 and 82, the spans \<open>(10, 50)\<close> and \<open>(60, 100)\<close>
  of two reads on the pair \<open>A:B\<close> print nothing after the first line and \<open>A:B\<close> after
  the second; with thresholds 2 and 83 they print nothing.
\<close>

theorem selection_thresholds_inclusive:
  "(add_read_coverage (pairings st) key rs re = Inr (pd, (n, bp))
      \<and> key \<notin> dom (selected_pairings st) \<longrightarrow>
     (\<exists>st'. fold_and_select a st key rkey rs re = Inr st'
        \<and> (key \<in> dom (selected_pairings st')
             \<longleftrightarrow> min_mate_pair_count a \<le> n \<and> min_bp_coverage a \<le> bp)
        \<and> printed st' = printed st
             @ (if min_mate_pair_count a \<le> n \<and> min_bp_coverage a \<le> bp then [key] else [])))
   \<and> main_printed \<lparr>min_bp_coverage = 82, min_mate_pair_count = 2\<rparr>
        [\<lparr>ref_read = ''r1/1'', ref_transcript = ''A'', pos = 10, cigar = ''41M'',
          other_transcript = ''B''\<rparr>] = Inr []
   \<and> main_printed \<lparr>min_bp_coverage = 82, min_mate_pair_count = 2\<rparr>
        [\<lparr>ref_read = ''r1/1'', ref_transcript = ''A'', pos = 10, cigar = ''41M'',
          other_transcript = ''B''\<rparr>,
         \<lparr>ref_read = ''r2/1'', ref_transcript = ''A'', pos = 60, cigar = ''41M'',
          other_transcript = ''B''\<rparr>] = Inr [''A:B'']
   \<and> main_printed \<lparr>min_bp_coverage = 83, min_mate_pair_count = 2\<rparr>
        [\<lparr>ref_read = ''r1/1'', ref_transcript = ''A'', pos = 10, cigar = ''41M'',
          other_transcript = ''B''\<rparr>,
         \<lparr>ref_read = ''r2/1'', ref_transcript = ''A'', pos = 60, cigar = ''41M'',
          other_transcript = ''B''\<rparr>] = Inr []"
proof (intro conjI impI)
  assume h: "add_read_coverage (pairings st) key rs re = Inr (pd, (n, bp))
      \<and> key \<notin> dom (selected_pairings st)"
  then have n: "n = sum_read_count (folded (pairings st) key rs re)"
    and bp: "bp = sum_covered (folded (pairings st) key rs re)"
    by (simp_all add: add_read_coverage_folded)
  show "\<exists>st'. fold_and_select a st key rkey rs re = Inr st'
        \<and> (key \<in> dom (selected_pairings st')
             \<longleftrightarrow> min_mate_pair_count a \<le> n \<and> min_bp_coverage a \<le> bp)
        \<and> printed st' = printed st
             @ (if min_mate_pair_count a \<le> n \<and> min_bp_coverage a \<le> bp then [key] else [])"
    using h unfolding fold_and_select_eq n bp by auto
qed code_simp+

theorem selection_thresholds_inclusive_witness:
  "add_read_coverage (pairings (init_state\<lparr>pairings := [''A:B'' \<mapsto> [(1, 10, 50)]]\<rparr>)) ''A:B'' 60 100
     = Inr ([''A:B'' \<mapsto> [(1, 10, 50), (1, 60, 100)]], (2, 82))
   \<and> ''A:B'' \<notin> dom (selected_pairings (init_state\<lparr>pairings := [''A:B'' \<mapsto> [(1, 10, 50)]]\<rparr>))
   \<and> (\<exists>st'. fold_and_select \<lparr>min_bp_coverage = 82, min_mate_pair_count = 2\<rparr>
               (init_state\<lparr>pairings := [''A:B'' \<mapsto> [(1, 10, 50)]]\<rparr>) ''A:B'' ''A:B:r2'' 60 100
             = Inr st'
           \<and> ''A:B'' \<in> dom (selected_pairings st') \<and> printed st' = [''A:B''])"
  using selection_thresholds_inclusive
          [of "init_state\<lparr>pairings := [''A:B'' \<mapsto> [(1, 10, 50)]]\<rparr>" "''A:B''" 60 100
              "[''A:B'' \<mapsto> [(1, 10, 50), (1, 60, 100)]]" 2 82
              "\<lparr>min_bp_coverage = 82, min_mate_pair_count = 2\<rparr>" "''A:B:r2''"]
  by (simp add: add_read_coverage_folded folded_def sum_read_count_def sum_covered_def
        init_state_def)







end
